theory Spec2Isabelle
  imports Main "HOL-Library.AList"
begin

section \<open>Data model\<close>

text \<open>
  A key carries an identity token (\<open>symbol\<close>, a JavaScript \<open>Symbol\<close>, compared by
  identity) and a diagnostic \<open>name\<close>. A selector key is a key that also carries its
  member keys (\<open>values\<close>); the module tells the two apart with \<open>instanceof\<close>.
\<close>

type_synonym sym = nat

datatype key =
    ServiceKey (symbol: sym) (name: string)
  | ServiceSelectorKey (symbol: sym) (name: string) (members: "key list")

text \<open>The errors of the library, and \<open>Error\<close> for whatever else user code throws.\<close>

datatype error =
    ServiceFactoryNotFoundError string
  | ServiceModuleInitError string
  | Error string

type_synonym scope = nat

text \<open>
  What a dependency resolves to: the value of a plain key, or a selector handle
  for a selector key.
\<close>

datatype 'v resolved = Resolved 'v | Selector key

text \<open>
  A factory. \<open>initialize\<close> and \<open>dispose\<close> are user code: they run on the state
  \<open>'st\<close> outside the module and may throw.
\<close>

record ('v, 'st) factory =
  provides :: key
  dependsOn :: "key list"
  scope :: "scope option"
  initialize :: "'v resolved list \<Rightarrow> 'st \<Rightarrow> (error + 'v) \<times> 'st"
  dispose :: "('st \<Rightarrow> (error + unit) \<times> 'st) option"

text \<open>The identity of the key a factory provides.\<close>

abbreviation psym :: "('v, 'st) factory \<Rightarrow> sym" where
  "psym f \<equiv> symbol (provides f)"

datatype ('v, 'st) module = ServiceModule (factories: "('v, 'st) factory list")

datatype ('v, 'st) entry =
    EModule "('v, 'st) module"
  | EFactory "('v, 'st) factory"

section \<open>Library functions the module uses\<close>

text \<open>\<open>Array.prototype.join\<close>.\<close>

fun join :: "string \<Rightarrow> string list \<Rightarrow> string" where
  "join sep [] = []"
| "join sep [x] = x"
| "join sep (x # y # ys) = x @ sep @ join sep (y # ys)"

text \<open>\<open>String.prototype.includes\<close>: \<open>String_includes s p\<close> when \<open>p\<close> occurs in \<open>s\<close>.\<close>

fun String_includes :: "string \<Rightarrow> string \<Rightarrow> bool" where
  "String_includes [] p = (p = [])"
| "String_includes (c # cs) p = (take (length p) (c # cs) = p \<or> String_includes cs p)"

text \<open>
  A JavaScript \<open>Map\<close> keeps its entries in insertion order; \<open>set\<close> on a key that
  is present replaces the value where the entry stands.
\<close>

type_synonym ('k, 'a) Map = "('k \<times> 'a) list"

definition Map_set :: "('k, 'a) Map \<Rightarrow> 'k \<Rightarrow> 'a \<Rightarrow> ('k, 'a) Map" where
  "Map_set m k v = AList.update k v m"

definition Map_get :: "('k, 'a) Map \<Rightarrow> 'k \<Rightarrow> 'a option" where
  "Map_get m k = map_of m k"

definition Map_values :: "('k, 'a) Map \<Rightarrow> 'a list" where
  "Map_values m = map snd m"

section \<open>Validation\<close>

definition isSuitable :: "key \<Rightarrow> ('v, 'st) factory \<Rightarrow> bool" where
  "isSuitable key factory \<longleftrightarrow> symbol (provides factory) = symbol key"

definition isRegistered :: "key \<Rightarrow> ('v, 'st) factory list \<Rightarrow> bool" where
  "isRegistered key fs \<longleftrightarrow> list_ex (\<lambda>factory. symbol (provides factory) = symbol key) fs"

text \<open>\<open>depKey instanceof ServiceSelectorKey ? depKey.values : [depKey]\<close>\<close>

fun keysToCheck :: "key \<Rightarrow> key list" where
  "keysToCheck (ServiceSelectorKey s n vs) = vs"
| "keysToCheck (ServiceKey s n) = [ServiceKey s n]"

text \<open>
  The map \<open>factoryMap\<close> of \<open>checkCircularDependencies\<close>: a loop of \<open>set\<close> over the
  factories.
\<close>

definition factoryMap :: "('v, 'st) factory list \<Rightarrow> (sym, ('v, 'st) factory) Map" where
  "factoryMap fs = foldl (\<lambda>m f. Map_set m (symbol (provides f)) f) [] fs"

text \<open>
  The state of the traversal: the sets \<open>visited\<close> and \<open>stack\<close>.
\<close>

record walk_state =
  visited :: "sym set"
  stack :: "sym set"

definition cycleMessage :: "string list \<Rightarrow> string" where
  "cycleMessage path = ''Circular dependency detected: '' @ join '' -> '' path"

text \<open>
  \<open>walk\<close> is the inner function of \<open>checkCircularDependencies\<close>; \<open>walkKeys\<close> is its
  pair of nested loops, over the keys of
  \<open>concat (map keysToCheck (dependsOn factory))\<close> in that order. A \<open>throw\<close> is the
  result \<open>Inl\<close>, which ends every enclosing loop.
\<close>

function
  walk :: "(sym, ('v, 'st) factory) Map \<Rightarrow> ('v, 'st) factory \<Rightarrow> string list \<Rightarrow> walk_state
    \<Rightarrow> error + walk_state"
and
  walkKeys :: "(sym, ('v, 'st) factory) Map \<Rightarrow> string list \<Rightarrow> key list \<Rightarrow> walk_state
    \<Rightarrow> error + walk_state"
where
  "walk fm factory path s =
     (if symbol (provides factory) \<in> stack s
      then Inl (ServiceModuleInitError (cycleMessage (path @ [name (provides factory)])))
      else if symbol (provides factory) \<in> visited s then Inr s
      else
        (case walkKeys fm (path @ [name (provides factory)])
                (concat (map keysToCheck (dependsOn factory)))
                (s\<lparr>visited := insert (symbol (provides factory)) (visited s),
                   stack := insert (symbol (provides factory)) (stack s)\<rparr>) of
           Inl e \<Rightarrow> Inl e
         | Inr s' \<Rightarrow> Inr (s'\<lparr>stack := stack s' - {symbol (provides factory)}\<rparr>)))"
| "walkKeys fm path [] s = Inr s"
| "walkKeys fm path (k # ks) s =
     (case Map_get fm (symbol k) of
        None \<Rightarrow> walkKeys fm path ks s
      | Some depFactory \<Rightarrow>
          (case walk fm depFactory path s of
             Inl e \<Rightarrow> Inl e
           | Inr s' \<Rightarrow> walkKeys fm path ks s'))"
  by pat_completeness auto

lemma walk_visited_mono_dom:
  "walk_walkKeys_dom (Inl (fm, f, path, s)) \<Longrightarrow>
     walk fm f path s = Inr s' \<Longrightarrow> visited s \<subseteq> visited s'"
  "walk_walkKeys_dom (Inr (fm, path, ks, s)) \<Longrightarrow>
     walkKeys fm path ks s = Inr s' \<Longrightarrow> visited s \<subseteq> visited s'"
proof (induction fm f path s and fm path ks s arbitrary: s' and s' rule: walk_walkKeys.pinduct)
  case (1 fm factory path s)
  then show ?case
    by (auto simp: walk.psimps split: if_splits sum.splits)
next
  case (2 fm path s)
  then show ?case by (simp add: walkKeys.psimps)
next
  case (3 fm path k ks s)
  then show ?case
    by (fastforce simp: walkKeys.psimps split: option.splits sum.splits)
qed

definition walk_measure ::
  "(sym, ('v, 'st) factory) Map \<times> ('v, 'st) factory \<times> string list \<times> walk_state +
   (sym, ('v, 'st) factory) Map \<times> string list \<times> key list \<times> walk_state \<Rightarrow> nat \<times> nat" where
  "walk_measure x =
     (case x of
        Inl (fm, f, path, s) \<Rightarrow>
          (card ((symbol \<circ> provides \<circ> snd) ` set fm - visited s - {symbol (provides f)}),
           if symbol (provides f) \<in> stack s \<or> symbol (provides f) \<in> visited s then 0
           else 2 + length (concat (map keysToCheck (dependsOn f))))
      | Inr (fm, path, ks, s) \<Rightarrow>
          (card ((symbol \<circ> provides \<circ> snd) ` set fm - visited s), 1 + length ks))"

lemma Map_get_in_values:
  "Map_get fm a = Some f \<Longrightarrow> symbol (provides f) \<in> (symbol \<circ> provides \<circ> snd) ` set fm"
  unfolding Map_get_def by (force dest: map_of_SomeD)

termination walk
proof (relation "inv_image (less_than <*lex*> less_than) walk_measure", goal_cases)
  case 1
  show ?case by (intro wf_inv_image wf_lex_prod wf_less_than)
next
  case (2 fm factory path s)
  have "(symbol \<circ> provides \<circ> snd) ` set fm - insert (symbol (provides factory)) (visited s)
      = (symbol \<circ> provides \<circ> snd) ` set fm - visited s - {symbol (provides factory)}"
    by auto
  with 2 show ?case by (simp add: walk_measure_def)
next
  case (3 fm path k ks s)
  then show ?case by (simp add: walk_measure_def)
next
  case (4 fm path k ks s depFactory)
  let ?U = "(symbol \<circ> provides \<circ> snd) ` set fm"
  have fin: "finite (?U - visited s)" by simp
  have le: "card (?U - visited s - {symbol (provides depFactory)}) \<le> card (?U - visited s)"
    by (rule card_mono [OF fin]) auto
  show ?case
  proof (cases "symbol (provides depFactory) \<in> stack s \<or> symbol (provides depFactory) \<in> visited s")
    case True
    with le show ?thesis by (auto simp: walk_measure_def)
  next
    case False
    then have "symbol (provides depFactory) \<in> ?U - visited s"
      using 4 Map_get_in_values [of fm "symbol k" depFactory] by simp
    then have "card (?U - visited s - {symbol (provides depFactory)}) < card (?U - visited s)"
      using fin by (metis card_Diff1_less)
    then show ?thesis by (simp add: walk_measure_def)
  qed
next
  case (5 fm path k ks s depFactory s')
  then have "visited s \<subseteq> visited s'"
    using walk_visited_mono_dom(1) by blast
  then have "card ((symbol \<circ> provides \<circ> snd) ` set fm - visited s')
      \<le> card ((symbol \<circ> provides \<circ> snd) ` set fm - visited s)"
    by (intro card_mono) auto
  then show ?case by (auto simp: walk_measure_def)
qed

text \<open>The loop \<open>for (const factory of factories) walk(factory, [])\<close>.\<close>

fun walkAll :: "(sym, ('v, 'st) factory) Map \<Rightarrow> ('v, 'st) factory list \<Rightarrow> walk_state
    \<Rightarrow> error + walk_state" where
  "walkAll fm [] s = Inr s"
| "walkAll fm (factory # rest) s =
     (case walk fm factory [] s of
        Inl e \<Rightarrow> Inl e
      | Inr s' \<Rightarrow> walkAll fm rest s')"

definition checkCircularDependencies :: "('v, 'st) factory list \<Rightarrow> error + unit" where
  "checkCircularDependencies fs =
     (case walkAll (factoryMap fs) fs \<lparr>visited = {}, stack = {}\<rparr> of
        Inl e \<Rightarrow> Inl e
      | Inr s \<Rightarrow> Inr ())"

text \<open>The list \<open>missingDependencies\<close> that \<open>checkMissingDependencies\<close> collects.\<close>

fun missingOf :: "('v, 'st) factory list \<Rightarrow> key \<Rightarrow> key list" where
  "missingOf fs (ServiceSelectorKey s n vs) = filter (\<lambda>key. \<not> isRegistered key fs) vs"
| "missingOf fs (ServiceKey s n) =
     (if \<not> isRegistered (ServiceKey s n) fs then [ServiceKey s n] else [])"

definition missingDependencies :: "('v, 'st) factory \<Rightarrow> ('v, 'st) factory list \<Rightarrow> key list" where
  "missingDependencies factory fs = concat (map (missingOf fs) (dependsOn factory))"

definition missingMessage :: "string \<Rightarrow> key list \<Rightarrow> string" where
  "missingMessage provided missing =
     provided @ '' will fail because it depends on:\<newline> '' @
     join ''\<newline>'' (map (\<lambda>dependencyKey. '' -> '' @ name dependencyKey) missing)"

definition checkMissingDependencies ::
  "('v, 'st) factory \<Rightarrow> ('v, 'st) factory list \<Rightarrow> error + unit" where
  "checkMissingDependencies factory fs =
     (if length (missingDependencies factory fs) = 0 then Inr ()
      else Inl (ServiceModuleInitError
        (missingMessage (name (provides factory)) (missingDependencies factory fs))))"

text \<open>
  \<open>factories.forEach((factory) => checkMissingDependencies(factory, this.factories))\<close>:
  the first factory that throws ends the loop.
\<close>

fun checkAllMissing :: "('v, 'st) factory list \<Rightarrow> ('v, 'st) factory list \<Rightarrow> error + unit" where
  "checkAllMissing [] fs = Inr ()"
| "checkAllMissing (factory # rest) fs =
     (case checkMissingDependencies factory fs of
        Inl e \<Rightarrow> Inl e
      | Inr u \<Rightarrow> checkAllMissing rest fs)"

text \<open>The private constructor: it returns the module only when both checks pass.\<close>

definition new_ServiceModule :: "('v, 'st) factory list \<Rightarrow> error + ('v, 'st) module" where
  "new_ServiceModule fs =
     (case checkCircularDependencies fs of
        Inl e \<Rightarrow> Inl e
      | Inr u \<Rightarrow>
          (case checkAllMissing fs fs of
             Inl e \<Rightarrow> Inl e
           | Inr u' \<Rightarrow> Inr (ServiceModule fs)))"

section \<open>Module assembly\<close>

fun entryFactories :: "('v, 'st) entry \<Rightarrow> ('v, 'st) factory list" where
  "entryFactories (EModule m) = factories m"
| "entryFactories (EFactory f) = [f]"

definition flattened :: "('v, 'st) entry list \<Rightarrow> ('v, 'st) factory list" where
  "flattened entries = concat (map entryFactories entries)"

definition byKey :: "('v, 'st) factory list \<Rightarrow> (sym, ('v, 'st) factory) Map" where
  "byKey fs = foldl (\<lambda>m f. Map_set m (symbol (provides f)) f) [] fs"

text \<open>The static method \<open>from\<close>.\<close>

definition ServiceModule_from :: "('v, 'st) entry list \<Rightarrow> error + ('v, 'st) module" where
  "ServiceModule_from entries = new_ServiceModule (Map_values (byKey (flattened entries)))"

section \<open>Resolution\<close>

text \<open>
  The world a resolution runs in: the state \<open>user\<close> that the factories' code reads
  and writes, and two records of what the module called: \<open>invoked\<close>, every call of
  a factory's \<open>initialize\<close>, and \<open>disposed\<close>, every call of a factory's \<open>dispose\<close>
  (the provided symbol, oldest first). User code has no access to either record.
\<close>

record 'st world =
  invoked :: "sym list"
  disposed :: "sym list"
  user :: 'st

text \<open>
  \<open>Promise.all\<close> over settled promises: the values in order, or the first rejection.
\<close>

fun Promise_all :: "(error + 'a) list \<Rightarrow> error + 'a list" where
  "Promise_all [] = Inr []"
| "Promise_all (Inl e # ps) = Inl e"
| "Promise_all (Inr v # ps) = (case Promise_all ps of Inl e \<Rightarrow> Inl e | Inr vs \<Rightarrow> Inr (v # vs))"

text \<open>
  \<open>get\<close>, with \<open>resolveDependency\<close> for the function it maps over
  \<open>factory.dependsOn\<close> and \<open>resolveAll\<close> for that \<open>map\<close>: every dependency is
  started, so each one runs whatever the others do; they run here from left to
  right. A selector handle is \<open>new ServiceSelector(this, dependencyKey)\<close>: it holds
  the selector key, and the module it is bound to is the one whose \<open>get\<close> made it.
  The first argument bounds the depth of the recursion: \<open>None\<close> is a resolution
  that does not return within it. \<open>awaitAndInitialize\<close> is the rest of \<open>get\<close> from
  the \<open>await\<close> on: the rejection of \<open>Promise.all\<close>, or the call of \<open>initialize\<close>.
\<close>

definition awaitAndInitialize ::
  "('v, 'st) factory \<Rightarrow> (error + 'v resolved) list \<Rightarrow> 'st world \<Rightarrow> (error + 'v) \<times> 'st world" where
  "awaitAndInitialize factory ps w =
     (case Promise_all ps of
        Inl e \<Rightarrow> (Inl e, w)
      | Inr dependencies \<Rightarrow>
          (case initialize factory dependencies (user w) of
             (r, u) \<Rightarrow> (r, w\<lparr>invoked := invoked w @ [psym factory], user := u\<rparr>)))"

fun
  get :: "nat \<Rightarrow> ('v, 'st) module \<Rightarrow> key \<Rightarrow> 'st world \<Rightarrow> ((error + 'v) \<times> 'st world) option"
and
  resolveDependency :: "nat \<Rightarrow> ('v, 'st) module \<Rightarrow> key \<Rightarrow> 'st world
    \<Rightarrow> ((error + 'v resolved) \<times> 'st world) option"
and
  resolveAll :: "nat \<Rightarrow> ('v, 'st) module \<Rightarrow> key list \<Rightarrow> 'st world
    \<Rightarrow> ((error + 'v resolved) list \<times> 'st world) option"
where
  "get 0 m key w = None"
| "get (Suc n) m key w =
     (case find (isSuitable key) (factories m) of
        None \<Rightarrow>
          Some (Inl (ServiceFactoryNotFoundError
                  (''Could not find a suitable factory for '' @ name key)), w)
      | Some factory \<Rightarrow>
          (case resolveAll n m (dependsOn factory) w of
             None \<Rightarrow> None
           | Some (ps, w') \<Rightarrow> Some (awaitAndInitialize factory ps w')))"
| "resolveDependency n m (ServiceSelectorKey s nm vs) w =
     Some (Inr (Selector (ServiceSelectorKey s nm vs)), w)"
| "resolveDependency n m (ServiceKey s nm) w =
     (case get n m (ServiceKey s nm) w of
        None \<Rightarrow> None
      | Some (p, w') \<Rightarrow> Some (map_sum id Resolved p, w'))"
| "resolveAll n m [] w = Some ([], w)"
| "resolveAll n m (dependencyKey # rest) w =
     (case resolveDependency n m dependencyKey w of
        None \<Rightarrow> None
      | Some (p, w1) \<Rightarrow>
          (case resolveAll n m rest w1 of
             None \<Rightarrow> None
           | Some (ps, w') \<Rightarrow> Some (p # ps, w')))"

text \<open>\<open>getOrNull\<close>: the value \<open>null\<close> is \<open>None\<close>.\<close>

definition getOrNull ::
  "nat \<Rightarrow> ('v, 'st) module \<Rightarrow> key \<Rightarrow> 'st world \<Rightarrow> ((error + 'v option) \<times> 'st world) option" where
  "getOrNull n m key w =
     (case get n m key w of
        None \<Rightarrow> None
      | Some (Inr v, w') \<Rightarrow> Some (Inr (Some v), w')
      | Some (Inl (ServiceFactoryNotFoundError msg), w') \<Rightarrow> Some (Inr None, w')
      | Some (Inl e, w') \<Rightarrow> Some (Inl e, w'))"



section \<open>Disposal\<close>




section \<open>Selectors\<close>


section \<open>Factories\<close>











section \<open>The dependency graph\<close>

text \<open>
  The keys a factory's dependencies stand for, selector keys expanded to their
  members, and the edges between provided symbols that the traversal follows.
\<close>

definition depKeys :: "('v, 'st) factory \<Rightarrow> key list" where
  "depKeys f = concat (map keysToCheck (dependsOn f))"

definition edgesOf :: "(sym, ('v, 'st) factory) Map \<Rightarrow> (sym \<times> sym) set" where
  "edgesOf fm = {(a, b). \<exists>f k. Map_get fm a = Some f \<and> k \<in> set (depKeys f) \<and> symbol k = b
                     \<and> Map_get fm b \<noteq> None}"

definition wellKeyed :: "(sym, ('v, 'st) factory) Map \<Rightarrow> bool" where
  "wellKeyed fm \<longleftrightarrow> (\<forall>a f. Map_get fm a = Some f \<longrightarrow> psym f = a)"

definition settled :: "(sym, ('v, 'st) factory) Map \<Rightarrow> sym set \<Rightarrow> bool" where
  "settled fm B \<longleftrightarrow> (\<forall>a\<in>B. \<forall>b. (a, b) \<in> edgesOf fm \<longrightarrow> b \<in> B) \<and>
                   (\<forall>a\<in>B. (a, a) \<notin> (edgesOf fm)\<^sup>+)"

text \<open>
  A list of factories has a cycle when some provided symbol reaches itself along
  at least one edge (a self-dependency is one edge).
\<close>

definition hasCycle :: "('v, 'st) factory list \<Rightarrow> bool" where
  "hasCycle fs \<longleftrightarrow> (\<exists>a. (a, a) \<in> (edgesOf (factoryMap fs))\<^sup>+)"

text \<open>
  A chain of factories, each depending on the next; and what a cycle error reports:
  the names of \<open>path\<close> followed by those of a chain whose last factory is on the
  stack or earlier in the chain.
\<close>

fun chainIn :: "(sym, ('v, 'st) factory) Map \<Rightarrow> ('v, 'st) factory list \<Rightarrow> bool" where
  "chainIn fm [] = True"
| "chainIn fm [f] = True"
| "chainIn fm (f # g # rest) =
     ((\<exists>k\<in>set (depKeys f). Map_get fm (symbol k) = Some g) \<and> chainIn fm (g # rest))"

definition reports ::
  "(sym, ('v, 'st) factory) Map \<Rightarrow> string list \<Rightarrow> walk_state \<Rightarrow> error \<Rightarrow> ('v, 'st) factory list \<Rightarrow> bool" where
  "reports fm path s e chain \<longleftrightarrow>
     chain \<noteq> [] \<and> chainIn fm chain \<and>
     e = ServiceModuleInitError (cycleMessage (path @ map (name \<circ> provides) chain)) \<and>
     psym (last chain) \<in> stack s \<union> psym ` set (butlast chain) \<and>
     distinct (map psym (butlast chain)) \<and>
     psym ` set (butlast chain) \<inter> visited s = {}"

text \<open>
  A list of factories is fully satisfiable when every key a registered factory
  depends on is provided; as in the cycle check, a later factory for a symbol
  overrides an earlier one. \<open>reachable\<close> are the symbols a provided symbol
  reaches, \<open>plainReach\<close> those the plain keys of a list reach, and \<open>validated\<close> is
  what holds of the factories of a module that \<open>from\<close> returned.
\<close>

definition fullySatisfiable :: "('v, 'st) factory list \<Rightarrow> bool" where
  "fullySatisfiable fs \<longleftrightarrow>
     (\<forall>a f. Map_get (factoryMap fs) a = Some f \<longrightarrow>
        (\<forall>k\<in>set (depKeys f). Map_get (factoryMap fs) (symbol k) \<noteq> None))"

definition reachable :: "('v, 'st) factory list \<Rightarrow> sym \<Rightarrow> sym set" where
  "reachable fs a = {b. (a, b) \<in> (edgesOf (factoryMap fs))\<^sup>*}"

definition plainReach :: "('v, 'st) factory list \<Rightarrow> key list \<Rightarrow> sym set" where
  "plainReach fs ks = (\<Union>k\<in>set ks. case k of ServiceKey s nm \<Rightarrow> reachable fs s
                                      | ServiceSelectorKey s nm vs \<Rightarrow> {})"

definition validated :: "('v, 'st) factory list \<Rightarrow> bool" where
  "validated fs \<longleftrightarrow> distinct (map psym fs) \<and> \<not> hasCycle fs \<and> fullySatisfiable fs"

definition deduplicated :: "('v, 'st) entry list \<Rightarrow> ('v, 'st) factory list" where
  "deduplicated entries = Map_values (byKey (flattened entries))"

section \<open>Example keys and factories\<close>

definition Key0 :: key where "Key0 = ServiceKey 0 ''Key0''"
definition Key1 :: key where "Key1 = ServiceKey 1 ''Key1''"
definition Key2 :: key where "Key2 = ServiceKey 2 ''Key2''"

definition constantly :: "'v \<Rightarrow> 'v resolved list \<Rightarrow> 'st \<Rightarrow> (error + 'v) \<times> 'st" where
  "constantly v dependencies u = (Inr v, u)"

definition plainFactory :: "key \<Rightarrow> key list \<Rightarrow> (string, unit) factory" where
  "plainFactory k ds =
     \<lparr>provides = k, dependsOn = ds, scope = None, initialize = constantly ''value'', dispose = None\<rparr>"

definition throwing :: "error \<Rightarrow> 'v resolved list \<Rightarrow> 'st \<Rightarrow> (error + 'v) \<times> 'st" where
  "throwing e dependencies u = (Inl e, u)"


definition transient ::
  "key \<Rightarrow> key list \<Rightarrow> ('v resolved list \<Rightarrow> 'st \<Rightarrow> (error + 'v) \<times> 'st) \<Rightarrow> ('v, 'st) factory" where
  "transient k ds init =
     \<lparr>provides = k, dependsOn = ds, scope = None, initialize = init, dispose = None\<rparr>"

definition emptyWorld :: "unit world" where
  "emptyWorld = \<lparr>invoked = [], disposed = [], user = ()\<rparr>"


definition failingDependency :: "(string, unit) factory list" where
  "failingDependency =
     [transient Key1 [] (throwing (Error ''Init error'')),
      transient Key2 [Key1] (constantly ''value2'')]"


definition notFoundInside :: "(string, unit) factory list" where
  "notFoundInside =
     [transient Key1 [] (throwing (ServiceFactoryNotFoundError ''raised by initialize''))]"













section \<open>Properties of the traversal\<close>

declare walk.simps [simp del]

lemma walk_frame:
  "walk fm f path s = Inr s' \<Longrightarrow>
     visited s \<subseteq> visited s' \<and> stack s' = stack s \<and> psym f \<in> visited s' \<and> psym f \<notin> stack s"
  "walkKeys fm path ks s = Inr s' \<Longrightarrow> visited s \<subseteq> visited s' \<and> stack s' = stack s"
proof (induction fm f path s and fm path ks s arbitrary: s' and s' rule: walk_walkKeys.induct)
  case (1 fm factory path s)
  show ?case
  proof (cases "psym factory \<in> stack s \<or> psym factory \<in> visited s")
    case True
    with "1.prems" show ?thesis by (auto simp: walk.simps split: if_splits)
  next
    case False
    with "1.prems" obtain s1 where
      k: "walkKeys fm (path @ [name (provides factory)]) (concat (map keysToCheck (dependsOn factory)))
            (s\<lparr>visited := insert (psym factory) (visited s),
               stack := insert (psym factory) (stack s)\<rparr>) = Inr s1"
      and s': "s' = s1\<lparr>stack := stack s1 - {psym factory}\<rparr>"
      by (auto simp: walk.simps split: sum.splits)
    from "1.IH" [OF _ _ k] False
    have "insert (psym factory) (visited s) \<subseteq> visited s1"
      and "stack s1 = insert (psym factory) (stack s)"
      by auto
    with s' False show ?thesis by auto
  qed
next
  case (2 fm path s)
  then show ?case by simp
next
  case (3 fm path k ks s)
  show ?case
  proof (cases "Map_get fm (symbol k)")
    case None
    with 3 show ?thesis by simp
  next
    case (Some df)
    with "3.prems" obtain s1 where w: "walk fm df path s = Inr s1"
      and r: "walkKeys fm path ks s1 = Inr s'"
      by (auto split: sum.splits)
    from "3.IH"(2) [OF Some w] "3.IH"(3) [OF Some w r]
    show ?thesis by auto
  qed
qed


lemma settled_closed_rtrancl:
  assumes "settled fm B" "(b, a) \<in> (edgesOf fm)\<^sup>*" "b \<in> B"
  shows "a \<in> B"
  using assms(2,3,1) by (induction rule: rtrancl_induct) (auto simp: settled_def)

lemma settled_insert:
  assumes st: "settled fm B" and nin: "a \<notin> B"
    and succ: "\<And>b. (a, b) \<in> edgesOf fm \<Longrightarrow> b \<in> B"
  shows "settled fm (insert a B)"
proof -
  have "(a, a) \<notin> (edgesOf fm)\<^sup>+"
  proof
    assume "(a, a) \<in> (edgesOf fm)\<^sup>+"
    then obtain b where "(a, b) \<in> edgesOf fm" "(b, a) \<in> (edgesOf fm)\<^sup>*"
      by (auto dest: tranclD)
    with succ st have "a \<in> B" by (blast intro: settled_closed_rtrancl)
    with nin show False by simp
  qed
  with st succ show ?thesis by (auto simp: settled_def)
qed

lemma walk_settled:
  "walk fm f path s = Inr s' \<Longrightarrow> wellKeyed fm \<Longrightarrow> Map_get fm (psym f) = Some f \<Longrightarrow>
     settled fm (visited s - stack s) \<Longrightarrow> settled fm (visited s' - stack s')"
  "walkKeys fm path ks s = Inr s' \<Longrightarrow> wellKeyed fm \<Longrightarrow>
     settled fm (visited s - stack s) \<Longrightarrow>
     settled fm (visited s' - stack s') \<and>
     (\<forall>k\<in>set ks. Map_get fm (symbol k) \<noteq> None \<longrightarrow> symbol k \<in> visited s' - stack s')"
proof (induction fm f path s and fm path ks s arbitrary: s' and s' rule: walk_walkKeys.induct)
  case (1 fm factory path s)
  show ?case
  proof (cases "psym factory \<in> stack s \<or> psym factory \<in> visited s")
    case True
    with "1.prems" show ?thesis by (auto simp: walk.simps split: if_splits)
  next
    case False
    let ?s1 = "s\<lparr>visited := insert (psym factory) (visited s),
                  stack := insert (psym factory) (stack s)\<rparr>"
    from False "1.prems"(1) obtain s1 where
      k: "walkKeys fm (path @ [name (provides factory)]) (concat (map keysToCheck (dependsOn factory)))
            ?s1 = Inr s1"
      and s': "s' = s1\<lparr>stack := stack s1 - {psym factory}\<rparr>"
      by (auto simp: walk.simps split: sum.splits)
    have eq: "visited ?s1 - stack ?s1 = visited s - stack s"
      using False by auto
    from "1.IH" [OF _ _ k "1.prems"(2)] False eq "1.prems"(4)
    have st1: "settled fm (visited s1 - stack s1)"
      and all: "\<forall>k\<in>set (concat (map keysToCheck (dependsOn factory))).
                  Map_get fm (symbol k) \<noteq> None \<longrightarrow> symbol k \<in> visited s1 - stack s1"
      by auto
    from walk_frame(2) [OF k]
    have fr: "insert (psym factory) (visited s) \<subseteq> visited s1"
      "stack s1 = insert (psym factory) (stack s)"
      by auto
    have B': "visited s' - stack s' = insert (psym factory) (visited s1 - stack s1)"
      using s' fr False by auto
    have "settled fm (insert (psym factory) (visited s1 - stack s1))"
    proof (rule settled_insert [OF st1])
      show "psym factory \<notin> visited s1 - stack s1" using fr by auto
    next
      fix b assume "(psym factory, b) \<in> edgesOf fm"
      then obtain f0 k where "Map_get fm (psym factory) = Some f0" "k \<in> set (depKeys f0)"
        "symbol k = b" "Map_get fm b \<noteq> None"
        by (auto simp: edgesOf_def)
      with "1.prems"(3) all show "b \<in> visited s1 - stack s1"
        by (auto simp: depKeys_def)
    qed
    with B' show ?thesis by simp
  qed
next
  case (2 fm path s)
  then show ?case by simp
next
  case (3 fm path k ks s)
  show ?case
  proof (cases "Map_get fm (symbol k)")
    case None
    with 3 show ?thesis by simp
  next
    case (Some df)
    with "3.prems" obtain s1 where w: "walk fm df path s = Inr s1"
      and r: "walkKeys fm path ks s1 = Inr s'"
      by (auto split: sum.splits)
    from Some "3.prems"(2) have reg: "Map_get fm (psym df) = Some df"
      by (auto simp: wellKeyed_def)
    from "3.IH"(2) [OF Some w "3.prems"(2) reg "3.prems"(3)]
    have st1: "settled fm (visited s1 - stack s1)" .
    from "3.IH"(3) [OF Some w r "3.prems"(2) st1]
    have st': "settled fm (visited s' - stack s')"
      and all: "\<forall>k\<in>set ks. Map_get fm (symbol k) \<noteq> None \<longrightarrow> symbol k \<in> visited s' - stack s'"
      by auto
    from walk_frame(1) [OF w] have "psym df \<in> visited s1 - stack s1" by auto
    moreover from walk_frame(2) [OF r] have "visited s1 - stack s1 \<subseteq> visited s' - stack s'"
      by auto
    moreover from Some "3.prems"(2) have "psym df = symbol k" by (auto simp: wellKeyed_def)
    ultimately have "symbol k \<in> visited s' - stack s'" by auto
    with st' all show ?thesis by auto
  qed
qed

lemma reports_Cons:
  assumes "reports fm (path @ [name (provides f)])
             (s\<lparr>visited := insert (psym f) (visited s), stack := insert (psym f) (stack s)\<rparr>) e chain"
    and "\<exists>k\<in>set (depKeys f). Map_get fm (symbol k) = Some (hd chain)"
    and "psym f \<notin> visited s"
  shows "reports fm path s e (f # chain)"
proof -
  from assms(1) obtain g rest where c: "chain = g # rest"
    by (cases chain) (auto simp: reports_def)
  with assms show ?thesis
    by (auto simp: reports_def)
qed

lemma reports_frame:
  assumes "reports fm path s1 e chain" "visited s \<subseteq> visited s1" "stack s1 = stack s"
  shows "reports fm path s e chain"
  using assms by (auto simp: reports_def)

lemma walk_reports:
  "walk fm f path s = Inl e \<Longrightarrow>
     \<exists>chain. hd chain = f \<and> reports fm path s e chain"
  "walkKeys fm path ks s = Inl e \<Longrightarrow>
     \<exists>k\<in>set ks. \<exists>chain. Map_get fm (symbol k) = Some (hd chain) \<and> reports fm path s e chain"
proof (induction fm f path s and fm path ks s arbitrary: e and e rule: walk_walkKeys.induct)
  case (1 fm factory path s)
  show ?case
  proof (cases "psym factory \<in> stack s")
    case True
    with "1.prems" have "e = ServiceModuleInitError (cycleMessage (path @ [name (provides factory)]))"
      by (simp add: walk.simps)
    with True have "reports fm path s e [factory]"
      by (simp add: reports_def)
    then show ?thesis by (intro exI [of _ "[factory]"]) simp
  next
    case False
    with "1.prems" have nv: "psym factory \<notin> visited s"
      by (auto simp: walk.simps split: if_splits)
    let ?s1 = "s\<lparr>visited := insert (psym factory) (visited s),
                  stack := insert (psym factory) (stack s)\<rparr>"
    from False nv "1.prems" have
      k: "walkKeys fm (path @ [name (provides factory)]) (concat (map keysToCheck (dependsOn factory)))
            ?s1 = Inl e"
      by (auto simp: walk.simps split: sum.splits)
    from "1.IH" [OF False nv k] obtain k chain where
      "k \<in> set (depKeys factory)" "Map_get fm (symbol k) = Some (hd chain)"
      "reports fm (path @ [name (provides factory)]) ?s1 e chain"
      by (auto simp: depKeys_def)
    with nv have "reports fm path s e (factory # chain)"
      by (intro reports_Cons) auto
    then show ?thesis by (intro exI [of _ "factory # chain"]) simp
  qed
next
  case (2 fm path s)
  then show ?case by simp
next
  case (3 fm path k ks s)
  show ?case
  proof (cases "Map_get fm (symbol k)")
    case None
    with 3 show ?thesis by auto
  next
    case (Some df)
    show ?thesis
    proof (cases "walk fm df path s")
      case (Inl e')
      with Some "3.prems" have "e' = e" by simp
      with "3.IH"(2) [OF Some] Inl Some show ?thesis by auto
    next
      case (Inr s1)
      with Some "3.prems" have r: "walkKeys fm path ks s1 = Inl e" by simp
      from "3.IH"(3) [OF Some Inr r] obtain k' chain where
        k': "k' \<in> set ks" "Map_get fm (symbol k') = Some (hd chain)"
        and rp: "reports fm path s1 e chain"
        by auto
      from walk_frame(1) [OF Inr] have "visited s \<subseteq> visited s1" "stack s1 = stack s"
        by auto
      with rp have "reports fm path s e chain" by (rule reports_frame)
      with k' show ?thesis by auto
    qed
  qed
qed

section \<open>Properties of the maps\<close>



lemma byKey_distinct:
  "distinct (map fst al) \<Longrightarrow> distinct (map fst (foldl (\<lambda>m f. Map_set m (psym f) f) al fl))"
  by (induction fl arbitrary: al) (simp_all add: Map_set_def AList.distinct_update)

lemma update_entries:
  "(a, f) \<in> set (AList.update k v al) \<Longrightarrow> (a, f) = (k, v) \<or> (a, f) \<in> set al"
  by (induction al) (auto split: if_splits)

lemma byKey_entries:
  "(\<forall>(a, f)\<in>set al. psym f = a) \<Longrightarrow>
     (\<forall>(a, f)\<in>set (foldl (\<lambda>m f. Map_set m (psym f) f) al fl). psym f = a)"
proof (induction fl arbitrary: al)
  case Nil
  then show ?case by simp
next
  case (Cons f rest)
  have "\<forall>(a, g)\<in>set (Map_set al (psym f) f). psym g = a"
    using Cons.prems by (auto simp: Map_set_def dest!: update_entries)
  from Cons.IH [OF this] show ?case by simp
qed


lemma update_fresh: "k \<notin> fst ` set al \<Longrightarrow> AList.update k v al = al @ [(k, v)]"
  by (induction al) auto

lemma byKey_fresh:
  "distinct (map psym fl) \<Longrightarrow> psym ` set fl \<inter> fst ` set al = {} \<Longrightarrow>
     foldl (\<lambda>m f. Map_set m (psym f) f) al fl = al @ map (\<lambda>f. (psym f, f)) fl"
proof (induction fl arbitrary: al)
  case Nil
  then show ?case by simp
next
  case (Cons f rest)
  from Cons.prems have fresh: "psym f \<notin> fst ` set al" by auto
  then have upd: "Map_set al (psym f) f = al @ [(psym f, f)]"
    by (simp add: Map_set_def update_fresh)
  have "psym ` set rest \<inter> fst ` set (al @ [(psym f, f)]) = {}"
    using Cons.prems by auto
  with Cons.IH [of "al @ [(psym f, f)]"] Cons.prems upd show ?case by simp
qed

lemma byKey_values_distinct: "distinct (map psym (Map_values (byKey fl)))"
proof -
  have d: "distinct (map fst (byKey fl))"
    unfolding byKey_def by (rule byKey_distinct) simp
  have "\<forall>(a, f)\<in>set (byKey fl). psym f = a"
    unfolding byKey_def by (rule byKey_entries) simp
  then have "map psym (Map_values (byKey fl)) = map fst (byKey fl)"
    by (auto simp: Map_values_def)
  with d show ?thesis by simp
qed

lemma factoryMap_distinct:
  "distinct (map psym fs) \<Longrightarrow> factoryMap fs = map (\<lambda>f. (psym f, f)) fs"
  unfolding factoryMap_def using byKey_fresh [of fs "[]"] by simp

lemma Map_get_factoryMap:
  assumes "distinct (map psym fs)"
  shows "Map_get (factoryMap fs) a = Some f \<longleftrightarrow> f \<in> set fs \<and> psym f = a"
proof -
  have "distinct (map fst (map (\<lambda>f. (psym f, f)) fs))"
    using assms by (simp add: comp_def)
  then show ?thesis
    unfolding Map_get_def factoryMap_distinct [OF assms] by (auto simp: map_of_eq_Some_iff)
qed

lemma Map_get_factoryMap_None:
  assumes "distinct (map psym fs)"
  shows "Map_get (factoryMap fs) a = None \<longleftrightarrow> a \<notin> psym ` set fs"
proof
  assume "Map_get (factoryMap fs) a = None"
  with Map_get_factoryMap [OF assms, of a] show "a \<notin> psym ` set fs" by auto
next
  assume n: "a \<notin> psym ` set fs"
  show "Map_get (factoryMap fs) a = None"
  proof (cases "Map_get (factoryMap fs) a")
    case None
    then show ?thesis .
  next
    case (Some f)
    with Map_get_factoryMap [OF assms, of a f] n show ?thesis by auto
  qed
qed

lemma wellKeyed_factoryMap: "distinct (map psym fs) \<Longrightarrow> wellKeyed (factoryMap fs)"
  by (simp add: wellKeyed_def Map_get_factoryMap)

lemma walkAll_settled:
  "walkAll fm rs s = Inr s' \<Longrightarrow> wellKeyed fm \<Longrightarrow> \<forall>f\<in>set rs. Map_get fm (psym f) = Some f \<Longrightarrow>
     settled fm (visited s - stack s) \<Longrightarrow>
     settled fm (visited s' - stack s') \<and> stack s' = stack s \<and> visited s \<subseteq> visited s' \<and>
     psym ` set rs \<subseteq> visited s' - stack s'"
proof (induction rs arbitrary: s)
  case Nil
  then show ?case by simp
next
  case (Cons f rest)
  from Cons.prems(1) obtain s1 where w: "walk fm f [] s = Inr s1"
    and r: "walkAll fm rest s1 = Inr s'"
    by (auto split: sum.splits)
  from walk_settled(1) [OF w Cons.prems(2)] Cons.prems(3,4)
  have st1: "settled fm (visited s1 - stack s1)" by simp
  from Cons.IH [OF r Cons.prems(2) _ st1] Cons.prems(3)
  have IH: "settled fm (visited s' - stack s')" "stack s' = stack s1" "visited s1 \<subseteq> visited s'"
    "psym ` set rest \<subseteq> visited s' - stack s'"
    by auto
  from walk_frame(1) [OF w] IH show ?case by auto
qed

lemma walkAll_reports:
  "walkAll fm rs s = Inl e \<Longrightarrow>
     \<exists>chain s0. hd chain \<in> set rs \<and> reports fm [] s0 e chain \<and> stack s0 = stack s"
proof (induction rs arbitrary: s)
  case Nil
  then show ?case by simp
next
  case (Cons f rest)
  show ?case
  proof (cases "walk fm f [] s")
    case (Inl e')
    with Cons.prems have "e' = e" by simp
    with walk_reports(1) [OF Inl] show ?thesis by auto
  next
    case (Inr s1)
    with Cons.prems have "walkAll fm rest s1 = Inl e" by simp
    from Cons.IH [OF this] walk_frame(1) [OF Inr] show ?thesis by auto
  qed
qed

section \<open>Properties of the cycle check\<close>

lemma chainIn_suffix: "chainIn fm (xs @ ys) \<Longrightarrow> chainIn fm ys"
proof (induction xs)
  case Nil
  then show ?case by simp
next
  case (Cons x xs)
  then show ?case by (cases "xs @ ys") auto
qed

lemma chainIn_members:
  assumes d: "distinct (map psym fs)"
  shows "chainIn (factoryMap fs) chain \<Longrightarrow> chain \<noteq> [] \<Longrightarrow> hd chain \<in> set fs \<Longrightarrow> set chain \<subseteq> set fs"
proof (induction "factoryMap fs" chain rule: chainIn.induct)
  case 1
  then show ?case by simp
next
  case (2 f)
  then show ?case by simp
next
  case (3 f g rest)
  from "3.prems"(1) obtain k where "Map_get (factoryMap fs) (symbol k) = Some g"
    by auto
  then have "g \<in> set fs" by (simp add: Map_get_factoryMap [OF d])
  with 3 show ?case by auto
qed

lemma chainIn_trancl:
  assumes d: "distinct (map psym fs)"
  shows "chainIn (factoryMap fs) (f # rest) \<Longrightarrow> rest \<noteq> [] \<Longrightarrow> set (f # rest) \<subseteq> set fs \<Longrightarrow>
     (psym f, psym (last rest)) \<in> (edgesOf (factoryMap fs))\<^sup>+"
proof (induction rest arbitrary: f)
  case Nil
  then show ?case by simp
next
  case (Cons g rest)
  from Cons.prems(1) obtain k where k: "k \<in> set (depKeys f)"
    "Map_get (factoryMap fs) (symbol k) = Some g"
    by auto
  then have g: "g \<in> set fs" "psym g = symbol k" by (simp_all add: Map_get_factoryMap [OF d])
  from Cons.prems(3) have "Map_get (factoryMap fs) (psym f) = Some f"
    by (simp add: Map_get_factoryMap [OF d])
  with k g have e: "(psym f, psym g) \<in> edgesOf (factoryMap fs)"
    unfolding edgesOf_def by auto
  show ?case
  proof (cases "rest = []")
    case True
    with e show ?thesis by auto
  next
    case False
    from Cons.IH [OF _ False] Cons.prems
    have "(psym g, psym (last rest)) \<in> (edgesOf (factoryMap fs))\<^sup>+" by auto
    with e False show ?thesis by (auto intro: trancl_into_trancl2)
  qed
qed

lemma check_ok_acyclic:
  assumes d: "distinct (map psym fs)" and ok: "checkCircularDependencies fs = Inr u"
  shows "\<not> hasCycle fs"
proof
  assume "hasCycle fs"
  then obtain a where a: "(a, a) \<in> (edgesOf (factoryMap fs))\<^sup>+"
    by (auto simp: hasCycle_def)
  let ?s0 = "\<lparr>visited = {}, stack = {}\<rparr>"
  from ok obtain s' where w: "walkAll (factoryMap fs) fs ?s0 = Inr s'"
    by (cases "walkAll (factoryMap fs) fs ?s0") (simp_all add: checkCircularDependencies_def)
  have s0: "settled (factoryMap fs) (visited ?s0 - stack ?s0)"
    by (simp add: settled_def)
  have reg: "\<forall>f\<in>set fs. Map_get (factoryMap fs) (psym f) = Some f"
    by (simp add: Map_get_factoryMap [OF d])
  from walkAll_settled [OF w wellKeyed_factoryMap [OF d] reg s0]
  have st: "settled (factoryMap fs) (visited s' - stack s')"
    and all: "psym ` set fs \<subseteq> visited s' - stack s'"
    by blast+
  from a obtain b where "(a, b) \<in> edgesOf (factoryMap fs)" by (blast dest: tranclD)
  then obtain f where "Map_get (factoryMap fs) a = Some f"
    unfolding edgesOf_def by blast
  then have "a \<in> psym ` set fs" by (simp add: Map_get_factoryMap [OF d]) blast
  with all have "a \<in> visited s' - stack s'" by blast
  with st have "(a, a) \<notin> (edgesOf (factoryMap fs))\<^sup>+"
    unfolding settled_def by blast
  with a show False by simp
qed

lemma check_error_shape:
  assumes d: "distinct (map psym fs)" and err: "checkCircularDependencies fs = Inl e"
  shows "\<exists>pre c mid.
           e = ServiceModuleInitError (cycleMessage (map (name \<circ> provides) (pre @ [c] @ mid @ [c]))) \<and>
           chainIn (factoryMap fs) (pre @ [c] @ mid @ [c]) \<and>
           set (pre @ [c] @ mid) \<subseteq> set fs \<and>
           distinct (map psym (pre @ [c] @ mid))"
proof -
  from err have "walkAll (factoryMap fs) fs \<lparr>visited = {}, stack = {}\<rparr> = Inl e"
    by (auto simp: checkCircularDependencies_def split: sum.splits)
  from walkAll_reports [OF this] obtain chain s0 where
    hd: "hd chain \<in> set fs" and rp: "reports (factoryMap fs) [] s0 e chain" and "stack s0 = {}"
    by auto
  then have ne: "chain \<noteq> []" and ch: "chainIn (factoryMap fs) chain"
    and e: "e = ServiceModuleInitError (cycleMessage (map (name \<circ> provides) chain))"
    and rep: "psym (last chain) \<in> psym ` set (butlast chain)"
    and dist: "distinct (map psym (butlast chain))"
    by (auto simp: reports_def)
  from chainIn_members [OF d ch ne hd] have mem: "set chain \<subseteq> set fs" .
  from rep obtain c where c: "c \<in> set (butlast chain)" "psym c = psym (last chain)" by auto
  have "c \<in> set fs" "last chain \<in> set fs"
    using c(1) mem ne by (auto dest: in_set_butlastD)
  with c(2) d have "c = last chain"
    by (auto simp: distinct_map dest: inj_onD)
  from c(1) obtain pre mid where bl: "butlast chain = pre @ c # mid"
    by (auto dest: split_list)
  have "butlast chain @ [last chain] = chain"
    using ne by simp
  then have "(pre @ c # mid) @ [c] = chain"
    unfolding bl \<open>c = last chain\<close> [symmetric] .
  then have chain: "chain = pre @ [c] @ mid @ [c]"
    by simp
  have "set (butlast chain) \<subseteq> set fs"
    using mem by (auto dest: in_set_butlastD)
  with bl have sub: "set (pre @ [c] @ mid) \<subseteq> set fs"
    by simp
  from dist bl have dist': "distinct (map psym (pre @ [c] @ mid))"
    by simp
  from e ch chain have
    "e = ServiceModuleInitError (cycleMessage (map (name \<circ> provides) (pre @ [c] @ mid @ [c])))"
    "chainIn (factoryMap fs) (pre @ [c] @ mid @ [c])"
    by simp_all
  with sub dist' show ?thesis by blast
qed

lemma check_error_cycle:
  assumes d: "distinct (map psym fs)" and err: "checkCircularDependencies fs = Inl e"
  shows "hasCycle fs"
proof -
  from check_error_shape [OF d err] obtain pre c mid where
    ch: "chainIn (factoryMap fs) (pre @ [c] @ mid @ [c])" and mem: "set (pre @ [c] @ mid) \<subseteq> set fs"
    by auto
  from ch have "chainIn (factoryMap fs) (c # (mid @ [c]))"
    using chainIn_suffix [of "factoryMap fs" pre "c # (mid @ [c])"] by simp
  from chainIn_trancl [OF d this] mem
  have "(psym c, psym c) \<in> (edgesOf (factoryMap fs))\<^sup>+" by auto
  then show ?thesis by (auto simp: hasCycle_def)
qed

section \<open>Properties of module assembly\<close>

lemmas from_defs =
  ServiceModule_from_def new_ServiceModule_def flattened_def byKey_def Map_set_def Map_values_def
  checkCircularDependencies_def factoryMap_def Map_get_def cycleMessage_def
  checkMissingDependencies_def missingDependencies_def missingMessage_def isRegistered_def

lemma from_deduplicated:
  "ServiceModule_from entries = new_ServiceModule (deduplicated entries)"
  by (simp add: ServiceModule_from_def deduplicated_def)

lemma deduplicated_distinct: "distinct (map psym (deduplicated entries))"
  unfolding deduplicated_def by (rule byKey_values_distinct)

lemma isRegistered_iff: "isRegistered k fs \<longleftrightarrow> symbol k \<in> psym ` set fs"
proof
  assume "isRegistered k fs"
  then obtain f where "f \<in> set fs" "psym f = symbol k"
    by (auto simp: isRegistered_def list_ex_iff)
  then show "symbol k \<in> psym ` set fs" by (metis imageI)
next
  assume "symbol k \<in> psym ` set fs"
  then show "isRegistered k fs" by (auto simp: isRegistered_def list_ex_iff)
qed

lemma missingOf_filter: "missingOf fs k = filter (\<lambda>k'. \<not> isRegistered k' fs) (keysToCheck k)"
  by (cases k) simp_all

lemma concat_missingOf:
  "concat (map (missingOf fs) ds) =
     filter (\<lambda>k. symbol k \<notin> psym ` set fs) (concat (map keysToCheck ds))"
  by (induction ds) (simp_all add: missingOf_filter isRegistered_iff)

lemma missingDependencies_filter:
  "missingDependencies f fs = filter (\<lambda>k. symbol k \<notin> psym ` set fs) (depKeys f)"
  unfolding missingDependencies_def depKeys_def by (rule concat_missingOf)

lemma checkAllMissing_find:
  "checkAllMissing rs fs =
     (case find (\<lambda>f. missingDependencies f fs \<noteq> []) rs of
        None \<Rightarrow> Inr ()
      | Some f \<Rightarrow>
          Inl (ServiceModuleInitError
                 (missingMessage (name (provides f)) (missingDependencies f fs))))"
  by (induction rs) (simp_all add: checkMissingDependencies_def)

lemma check_acyclic_ok:
  assumes "distinct (map psym fs)" "\<not> hasCycle fs"
  shows "checkCircularDependencies fs = Inr ()"
proof (cases "checkCircularDependencies fs")
  case (Inl e)
  from check_error_cycle [OF assms(1) Inl] assms(2) show ?thesis by simp
next
  case (Inr u)
  then show ?thesis by simp
qed

lemma psym_imageI: "f \<in> set fs \<Longrightarrow> psym f = a \<Longrightarrow> a \<in> psym ` set fs"
  by blast





lemma fullySatisfiable_distinct:
  assumes "distinct (map psym fs)"
  shows "fullySatisfiable fs \<longleftrightarrow> (\<forall>f\<in>set fs. \<forall>k\<in>set (depKeys f). symbol k \<in> psym ` set fs)"
  unfolding fullySatisfiable_def
  by (auto simp: Map_get_factoryMap [OF assms] Map_get_factoryMap_None [OF assms])

lemma checkAllMissing_ok:
  "checkAllMissing fs fs = Inr () \<longleftrightarrow>
     (\<forall>f\<in>set fs. \<forall>k\<in>set (depKeys f). symbol k \<in> psym ` set fs)"
proof -
  let ?P = "\<lambda>f. \<exists>k\<in>set (depKeys f). symbol k \<notin> psym ` set fs"
  have P: "(\<lambda>f. missingDependencies f fs \<noteq> []) = ?P"
    by (auto simp: missingDependencies_filter filter_empty_conv)
  show ?thesis
  proof (cases "find ?P fs")
    case None
    then have "\<forall>f\<in>set fs. \<not> ?P f" by (simp add: find_None_iff)
    with None show ?thesis
      unfolding checkAllMissing_find P by auto
  next
    case (Some f)
    then have "f \<in> set fs" "?P f" by (auto simp: find_Some_iff)
    with Some show ?thesis
      unfolding checkAllMissing_find P by auto
  qed
qed

lemma from_Inr_iff:
  "ServiceModule_from entries = Inr m \<longleftrightarrow>
     m = ServiceModule (deduplicated entries) \<and> \<not> hasCycle (deduplicated entries) \<and>
     fullySatisfiable (deduplicated entries)"
proof -
  let ?fs = "deduplicated entries"
  have d: "distinct (map psym ?fs)" by (rule deduplicated_distinct)
  show ?thesis
  proof (cases "checkCircularDependencies ?fs")
    case (Inl e)
    with check_error_cycle [OF d Inl] show ?thesis
      by (simp add: from_deduplicated new_ServiceModule_def)
  next
    case (Inr u)
    from check_ok_acyclic [OF d Inr] have ac: "\<not> hasCycle ?fs" .
    show ?thesis
    proof (cases "checkAllMissing ?fs ?fs")
      case (Inl e)
      then have "\<not> fullySatisfiable ?fs"
        using checkAllMissing_ok [of ?fs] by (auto simp: fullySatisfiable_distinct [OF d])
      with Inl Inr show ?thesis by (simp add: from_deduplicated new_ServiceModule_def)
    next
      case (Inr u')
      then have "fullySatisfiable ?fs"
        using checkAllMissing_ok [of ?fs] by (simp add: fullySatisfiable_distinct [OF d])
      with Inr \<open>checkCircularDependencies ?fs = Inr u\<close> ac show ?thesis
        by (auto simp: from_deduplicated new_ServiceModule_def)
    qed
  qed
qed

lemma from_validated: "ServiceModule_from entries = Inr m \<Longrightarrow> validated (factories m)"
  by (auto simp: from_Inr_iff validated_def deduplicated_distinct)

lemma find_isSuitable:
  assumes "distinct (map psym fs)"
  shows "find (isSuitable key) fs = Some f \<longleftrightarrow> f \<in> set fs \<and> psym f = symbol key"
proof
  assume "find (isSuitable key) fs = Some f"
  then show "f \<in> set fs \<and> psym f = symbol key"
    by (auto simp: find_Some_iff isSuitable_def)
next
  assume a: "f \<in> set fs \<and> psym f = symbol key"
  then obtain g where g: "find (isSuitable key) fs = Some g"
    by (cases "find (isSuitable key) fs") (auto simp: find_None_iff isSuitable_def)
  then have "g \<in> set fs" "psym g = symbol key"
    by (auto simp: find_Some_iff isSuitable_def)
  moreover from assms have "inj_on psym (set fs)" by (simp add: distinct_map)
  moreover from a \<open>psym g = symbol key\<close> have "psym g = psym f" by simp
  ultimately have "g = f" using a by (blast dest: inj_onD)
  with g show "find (isSuitable key) fs = Some f" by simp
qed

lemma find_isSuitable_None:
  "find (isSuitable key) fs = None \<longleftrightarrow> symbol key \<notin> psym ` set fs"
  by (auto simp: find_None_iff isSuitable_def dest: psym_imageI)








section \<open>Properties of resolution\<close>

lemma fuel_Suc:
  "get n m key w = Some r \<Longrightarrow> get (Suc n) m key w = Some r"
  "resolveDependency n m k w = Some p \<Longrightarrow> resolveDependency (Suc n) m k w = Some p"
  "resolveAll n m ks w = Some q \<Longrightarrow> resolveAll (Suc n) m ks w = Some q"
proof (induction n m key w and n m k w and n m ks w arbitrary: r and p and q
    rule: get_resolveDependency_resolveAll.induct)
  case (1 m key w)
  then show ?case by simp
next
  case (2 n m key w)
  show ?case
  proof (cases "find (isSuitable key) (factories m)")
    case None
    with "2.prems" show ?thesis by simp
  next
    case (Some f)
    with "2.prems" obtain ps w' where q: "resolveAll n m (dependsOn f) w = Some (ps, w')"
      and r: "r = awaitAndInitialize f ps w'"
      by (auto split: option.splits)
    from "2.IH" [OF Some q] have "resolveAll (Suc n) m (dependsOn f) w = Some (ps, w')" .
    with Some r show ?thesis by simp
  qed
next
  case (3 n m s nm vs w)
  then show ?case by simp
next
  case (4 n m s nm w)
  from "4.prems" obtain r w' where g: "get n m (ServiceKey s nm) w = Some (r, w')"
    and p: "p = (map_sum id Resolved r, w')"
    by (auto split: option.splits)
  from "4.IH" [OF g] p show ?case by simp
next
  case (5 n m w)
  then show ?case by simp
next
  case (6 n m k rest w)
  from "6.prems" obtain p w1 ps w' where
    d: "resolveDependency n m k w = Some (p, w1)"
    and a: "resolveAll n m rest w1 = Some (ps, w')"
    and q: "q = (p # ps, w')"
    by (auto split: option.splits)
  from "6.IH"(1) [OF d] "6.IH"(2) [OF d _ a] q show ?case by simp
qed

lemma fuel_mono:
  assumes "get n m key w = Some r" "n \<le> n'"
  shows "get n' m key w = Some r"
  using assms(2,1) by (induction rule: dec_induct) (blast intro: fuel_Suc)+


lemma resolveDependency_fuel_mono:
  assumes "resolveDependency n m k w = Some q" "n \<le> n'"
  shows "resolveDependency n' m k w = Some q"
  using assms(2,1) by (induction rule: dec_induct) (blast intro: fuel_Suc)+

lemma edge_registered:
  "(a, b) \<in> edgesOf fm \<Longrightarrow> b \<in> fst ` set fm"
  unfolding edgesOf_def Map_get_def by (auto simp: map_of_eq_None_iff)

lemma reachable_subset: "reachable fs a \<subseteq> insert a (fst ` set (factoryMap fs))"
proof
  fix b assume "b \<in> reachable fs a"
  then have "(a, b) \<in> (edgesOf (factoryMap fs))\<^sup>*" by (simp add: reachable_def)
  then show "b \<in> insert a (fst ` set (factoryMap fs))"
    by (induction rule: rtrancl_induct) (auto dest: edge_registered)
qed

lemma finite_reachable: "finite (reachable fs a)"
  by (rule finite_subset [OF reachable_subset]) simp

lemma reachable_edge_less:
  assumes "\<not> hasCycle fs" "(a, b) \<in> edgesOf (factoryMap fs)"
  shows "card (reachable fs b) < card (reachable fs a)"
proof (rule psubset_card_mono [OF finite_reachable])
  have "reachable fs b \<subseteq> reachable fs a"
    using assms(2) by (auto simp: reachable_def intro: converse_rtrancl_into_rtrancl)
  moreover have "a \<in> reachable fs a" by (simp add: reachable_def)
  moreover have "a \<notin> reachable fs b"
  proof
    assume "a \<in> reachable fs b"
    with assms(2) have "(a, a) \<in> (edgesOf (factoryMap fs))\<^sup>+"
      by (auto simp: reachable_def intro: rtrancl_into_trancl2)
    with assms(1) show False by (auto simp: hasCycle_def)
  qed
  ultimately show "reachable fs b \<subset> reachable fs a" by blast
qed

lemma card_reachable_le:
  assumes "distinct (map psym fs)" "a \<in> psym ` set fs"
  shows "card (reachable fs a) \<le> length fs"
proof -
  have "fst ` set (factoryMap fs) = psym ` set fs"
    by (simp add: factoryMap_distinct [OF assms(1)] image_image)
  with reachable_subset [of fs a] assms(2) have "reachable fs a \<subseteq> psym ` set fs"
    by auto
  then have "card (reachable fs a) \<le> card (psym ` set fs)"
    by (intro card_mono) auto
  also have "\<dots> \<le> length fs"
    by (metis card_image_le card_length le_trans List.finite_set)
  finally show ?thesis .
qed

lemma plain_dependency_edge:
  assumes v: "validated fs" and f: "f \<in> set fs" and k: "ServiceKey s nm \<in> set (dependsOn f)"
  shows "(psym f, s) \<in> edgesOf (factoryMap fs)" "s \<in> psym ` set fs"
proof -
  from v have d: "distinct (map psym fs)" and sat: "fullySatisfiable fs"
    by (simp_all add: validated_def)
  from k have dk: "ServiceKey s nm \<in> set (depKeys f)"
    unfolding depKeys_def by (auto intro!: bexI [of _ "ServiceKey s nm"])
  from f have reg: "Map_get (factoryMap fs) (psym f) = Some f"
    by (simp add: Map_get_factoryMap [OF d])
  with sat dk have nn: "Map_get (factoryMap fs) s \<noteq> None"
    unfolding fullySatisfiable_def by fastforce
  with reg dk show "(psym f, s) \<in> edgesOf (factoryMap fs)"
    unfolding edgesOf_def by fastforce
  from nn show "s \<in> psym ` set fs"
    by (simp add: Map_get_factoryMap_None [OF d])
qed

lemma resolveAll_total:
  "(\<And>k w. k \<in> set ks \<Longrightarrow> \<exists>p. resolveDependency n m k w = Some p) \<Longrightarrow>
     \<exists>q. resolveAll n m ks w = Some q"
proof (induction ks arbitrary: w)
  case Nil
  then show ?case by simp
next
  case (Cons k ks)
  from Cons.prems [of k w] obtain p w1 where d: "resolveDependency n m k w = Some (p, w1)"
    by auto
  from Cons.IH [of w1] Cons.prems obtain q where "resolveAll n m ks w1 = Some q"
    by auto
  with d show ?case by (cases q) simp
qed

lemma get_total_rank:
  assumes v: "validated (factories m)"
  shows "0 < n \<Longrightarrow>
     (symbol key \<in> psym ` set (factories m) \<Longrightarrow> card (reachable (factories m) (symbol key)) \<le> n) \<Longrightarrow>
     \<exists>r. get n m key w = Some r"
proof (induction n arbitrary: key w)
  case 0
  then show ?case by simp
next
  case (Suc n)
  let ?fs = "factories m"
  from v have d: "distinct (map psym ?fs)" and ac: "\<not> hasCycle ?fs"
    by (simp_all add: validated_def)
  show ?case
  proof (cases "find (isSuitable key) ?fs")
    case None
    then show ?thesis by simp
  next
    case (Some f)
    then have f: "f \<in> set ?fs" "psym f = symbol key"
      by (simp_all add: find_isSuitable [OF d])
    then have rk: "card (reachable ?fs (psym f)) \<le> Suc n"
      using Suc.prems(2) by (auto dest: psym_imageI)
    have "\<exists>p. resolveDependency n m k w' = Some p" if k: "k \<in> set (dependsOn f)" for k w'
    proof (cases k)
      case (ServiceSelectorKey s nm vs)
      then show ?thesis by simp
    next
      case (ServiceKey s nm)
      from plain_dependency_edge [OF v f(1)] k ServiceKey
      have e: "(psym f, s) \<in> edgesOf (factoryMap ?fs)" and reg: "s \<in> psym ` set ?fs"
        by auto
      from reachable_edge_less [OF ac e] rk have le: "card (reachable ?fs s) \<le> n" by simp
      have "s \<in> reachable ?fs s" by (simp add: reachable_def)
      then have "0 < card (reachable ?fs s)"
        using finite_reachable [of ?fs s] by (auto simp: card_gt_0_iff)
      with le have "0 < n" by simp
      from Suc.IH [OF this, of "ServiceKey s nm" w'] le
      obtain r where "get n m (ServiceKey s nm) w' = Some r" by auto
      with ServiceKey show ?thesis by (cases r) simp
    qed
    from resolveAll_total [of "dependsOn f" n m w, OF this]
    obtain q where "resolveAll n m (dependsOn f) w = Some q" by auto
    with Some show ?thesis by (cases q) simp
  qed
qed

lemma get_total:
  assumes v: "validated (factories m)" and n: "length (factories m) < n"
  shows "\<exists>r w'. get n m key w = Some (r, w')"
proof -
  from v have d: "distinct (map psym (factories m))" by (simp add: validated_def)
  have "\<exists>r. get n m key w = Some r"
  proof (rule get_total_rank [OF v])
    show "0 < n" using n by simp
  next
    assume "symbol key \<in> psym ` set (factories m)"
    from card_reachable_le [OF d this] n
    show "card (reachable (factories m) (symbol key)) \<le> n" by simp
  qed
  then show ?thesis by auto
qed

lemma plainReach_Cons:
  "plainReach fs (k # ks) =
     (case k of ServiceKey s nm \<Rightarrow> reachable fs s | ServiceSelectorKey s nm vs \<Rightarrow> {}) \<union>
     plainReach fs ks"
  by (simp add: plainReach_def)














lemma Promise_all_rejection_mem: "Promise_all ps = Inl e \<Longrightarrow> Inl e \<in> set ps"
proof (induction ps)
  case Nil
  then show ?case by simp
next
  case (Cons p ps)
  then show ?case by (cases p) (auto split: sum.splits)
qed

lemma not_found_only_at_root:
  "validated (factories m) \<Longrightarrow>
     \<forall>g\<in>set (factories m). \<forall>ds u msg.
        fst (initialize g ds u) \<noteq> Inl (ServiceFactoryNotFoundError msg) \<Longrightarrow>
     get n m key w = Some (Inl (ServiceFactoryNotFoundError msg), w') \<Longrightarrow>
     find (isSuitable key) (factories m) = None"
  "validated (factories m) \<Longrightarrow>
     \<forall>g\<in>set (factories m). \<forall>ds u msg.
        fst (initialize g ds u) \<noteq> Inl (ServiceFactoryNotFoundError msg) \<Longrightarrow>
     resolveDependency n m k w = Some (Inl (ServiceFactoryNotFoundError msg), w') \<Longrightarrow>
     (\<exists>s nm. k = ServiceKey s nm) \<and> find (isSuitable k) (factories m) = None"
  "validated (factories m) \<Longrightarrow>
     \<forall>g\<in>set (factories m). \<forall>ds u msg.
        fst (initialize g ds u) \<noteq> Inl (ServiceFactoryNotFoundError msg) \<Longrightarrow>
     resolveAll n m ks w = Some (ps, w') \<Longrightarrow> Inl (ServiceFactoryNotFoundError msg) \<in> set ps \<Longrightarrow>
     \<exists>s nm. ServiceKey s nm \<in> set ks \<and> find (isSuitable (ServiceKey s nm)) (factories m) = None"
proof (induction n m key w and n m k w and n m ks w arbitrary: msg w' and msg w' and msg ps w'
    rule: get_resolveDependency_resolveAll.induct)
  case (1 m key w)
  then show ?case by simp
next
  case (2 n m key w)
  let ?fs = "factories m"
  from "2.prems"(1) have d: "distinct (map psym ?fs)" by (simp add: validated_def)
  show ?case
  proof (cases "find (isSuitable key) ?fs")
    case None
    then show ?thesis .
  next
    case (Some f)
    then have fin: "f \<in> set ?fs" by (simp add: find_isSuitable [OF d])
    from Some "2.prems"(3) obtain ps w1 where
      q: "resolveAll n m (dependsOn f) w = Some (ps, w1)"
      and r: "awaitAndInitialize f ps w1 = (Inl (ServiceFactoryNotFoundError msg), w')"
      by (auto split: option.splits)
    show ?thesis
    proof (cases "Promise_all ps")
      case (Inl e)
      with r have "e = ServiceFactoryNotFoundError msg"
        by (simp add: awaitAndInitialize_def)
      with Inl have "Inl (ServiceFactoryNotFoundError msg) \<in> set ps"
        by (auto dest: Promise_all_rejection_mem)
      from "2.IH" [OF Some "2.prems"(1,2) q this] obtain s nm where
        k: "ServiceKey s nm \<in> set (dependsOn f)"
        and nf: "find (isSuitable (ServiceKey s nm)) ?fs = None"
        by blast
      from plain_dependency_edge(2) [OF "2.prems"(1) fin k] nf show ?thesis
        by (simp add: find_isSuitable_None)
    next
      case (Inr ds)
      with r have "fst (initialize f ds (user w1)) = Inl (ServiceFactoryNotFoundError msg)"
        by (auto simp: awaitAndInitialize_def split: prod.splits)
      with "2.prems"(2) fin show ?thesis by blast
    qed
  qed
next
  case (3 n m s nm vs w)
  then show ?case by simp
next
  case (4 n m s nm w)
  from "4.prems"(3) have "get n m (ServiceKey s nm) w = Some (Inl (ServiceFactoryNotFoundError msg), w')"
    by (auto split: option.splits sum.splits simp: map_sum_def)
  from "4.IH" [OF "4.prems"(1,2) this] show ?case by simp
next
  case (5 n m w)
  then show ?case by simp
next
  case (6 n m k rest w)
  from "6.prems"(3) obtain p w1 ps' where
    d: "resolveDependency n m k w = Some (p, w1)"
    and a: "resolveAll n m rest w1 = Some (ps', w')"
    and ps: "ps = p # ps'"
    by (auto split: option.splits)
  from "6.prems"(4) ps consider "p = Inl (ServiceFactoryNotFoundError msg)"
    | "Inl (ServiceFactoryNotFoundError msg) \<in> set ps'"
    by auto
  then show ?case
  proof cases
    case 1
    with "6.IH"(1) [OF "6.prems"(1,2)] d show ?thesis by fastforce
  next
    case 2
    from "6.IH"(2) [OF d _ "6.prems"(1,2) a 2] show ?thesis by auto
  qed
qed




section \<open>Properties of disposal\<close>



section \<open>Properties of singleton factories\<close>


















section \<open>A singleton is constructed at most once (C1)\<close>





section \<open>Cycles are reported (C2)\<close>

text \<open>
  C2, as amended. When the deduplicated factories have a dependency cycle
  (selector keys expanded to their members, a self-dependency included), \<open>from\<close>
  fails with the cycle error, and the message lists the names along the
  traversal's path: from the factory the traversal started at (\<open>pre\<close>, which may
  be empty), through the repeated factory \<open>c\<close> and the rest of the cycle \<open>mid\<close>,
  to \<open>c\<close> again. Each factory of the path depends on the next, and no provided
  symbol but that of \<open>c\<close> is repeated. So the repeated key is last, and it is
  first only when the traversal started on the cycle.
\<close>

theorem cycle_error_lists_traversal_path:
  assumes "hasCycle (deduplicated entries)"
  shows "\<exists>pre c mid.
           ServiceModule_from entries =
             Inl (ServiceModuleInitError
                    (cycleMessage (map (name \<circ> provides) (pre @ [c] @ mid @ [c])))) \<and>
           chainIn (factoryMap (deduplicated entries)) (pre @ [c] @ mid @ [c]) \<and>
           set (pre @ [c] @ mid) \<subseteq> set (deduplicated entries) \<and>
           distinct (map psym (pre @ [c] @ mid))"
proof -
  let ?fs = "deduplicated entries"
  have d: "distinct (map psym ?fs)" by (rule deduplicated_distinct)
  obtain e where e: "checkCircularDependencies ?fs = Inl e"
  proof (cases "checkCircularDependencies ?fs")
    case (Inl e)
    then show ?thesis by (rule that)
  next
    case (Inr u)
    from check_ok_acyclic [OF d Inr] assms show ?thesis by simp
  qed
  then have "ServiceModule_from entries = Inl e"
    by (simp add: from_deduplicated new_ServiceModule_def)
  with check_error_shape [OF d e] show ?thesis by simp
qed

text \<open>
  The factory that provides Key1 and depends on Key1: the path can only be that
  factory twice, so the message is the one of the scenario.
\<close>

theorem cycle_error_lists_traversal_path_witness:
  "hasCycle (deduplicated [EFactory (plainFactory Key1 [Key1])]) \<and>
   ServiceModule_from [EFactory (plainFactory Key1 [Key1])] =
     Inl (ServiceModuleInitError ''Circular dependency detected: Key1 -> Key1'')"
proof -
  let ?f = "plainFactory Key1 [Key1]"
  have ded: "deduplicated [EFactory ?f] = [?f]"
    by (simp add: deduplicated_def from_defs)
  have "(1, 1) \<in> edgesOf (factoryMap [?f])"
    by (simp add: edgesOf_def from_defs depKeys_def plainFactory_def Key1_def)
  then have cyc: "hasCycle (deduplicated [EFactory ?f])"
    unfolding ded hasCycle_def by blast
  from cycle_error_lists_traversal_path [OF cyc] obtain pre c mid where
    r: "ServiceModule_from [EFactory ?f] =
          Inl (ServiceModuleInitError (cycleMessage (map (name \<circ> provides) (pre @ [c] @ mid @ [c]))))"
    and sub: "set (pre @ [c] @ mid) \<subseteq> set (deduplicated [EFactory ?f])"
    and dist: "distinct (map psym (pre @ [c] @ mid))"
    by blast
  from sub have c: "c = ?f" and all: "\<forall>x\<in>set pre \<union> set mid. x = ?f"
    by (auto simp: ded)
  have pre: "pre = []"
  proof (cases pre)
    case (Cons x xs)
    with all c dist show ?thesis by auto
  qed simp
  have mid: "mid = []"
  proof (cases mid)
    case (Cons x xs)
    with all c dist show ?thesis by auto
  qed simp
  have "cycleMessage (map (name \<circ> provides) (pre @ [c] @ mid @ [c])) =
      ''Circular dependency detected: Key1 -> Key1''"
    unfolding pre mid c by (simp add: cycleMessage_def plainFactory_def Key1_def)
  with r cyc show ?thesis by simp
qed

text \<open>
  C2 as stated fails where the traversal enters the cycle from outside: Key0
  depends on Key1, Key1 on Key2 and Key2 on Key1. The message starts at Key0, which
  is not the repeated key.
\<close>

theorem cycle_path_counterexample:
  "ServiceModule_from
     [EFactory (plainFactory Key0 [Key1]), EFactory (plainFactory Key1 [Key2]),
      EFactory (plainFactory Key2 [Key1])] =
     Inl (ServiceModuleInitError (cycleMessage [''Key0'', ''Key1'', ''Key2'', ''Key1''])) \<and>
   hd [''Key0'', ''Key1'', ''Key2'', ''Key1''] \<noteq> last [''Key0'', ''Key1'', ''Key2'', ''Key1'']"
  by (simp add: from_defs walk.simps plainFactory_def Key0_def Key1_def Key2_def)

section \<open>Missing dependencies are reported (C3)\<close>

text \<open>
  C3, as amended. When the deduplicated factories have no cycle and some factory
  depends, directly or through the members of a selector key, on a key that no
  factory provides, \<open>from\<close> fails with the module-init error of the first such
  factory in module order: its message is that factory's name, the text
  \<open>will fail because it depends on:\<close>, a line break and a space, and then every
  missing key of that factory in dependency order as \<open>-> name\<close> after one space,
  one per line. (With a cycle the cycle error comes first, as the constructor
  checks cycles before missing dependencies.)
\<close>

theorem missing_dependencies_reported:
  assumes "\<not> hasCycle (deduplicated entries)"
    and "\<exists>f\<in>set (deduplicated entries). \<exists>k\<in>set (depKeys f).
           symbol k \<notin> psym ` set (deduplicated entries)"
  shows "\<exists>f. find (\<lambda>f. \<exists>k\<in>set (depKeys f). symbol k \<notin> psym ` set (deduplicated entries))
               (deduplicated entries) = Some f \<and>
             ServiceModule_from entries =
               Inl (ServiceModuleInitError
                 (name (provides f) @ '' will fail because it depends on:\<newline> '' @
                  join ''\<newline>''
                    (map (\<lambda>k. '' -> '' @ name k)
                       (filter (\<lambda>k. symbol k \<notin> psym ` set (deduplicated entries))
                          (depKeys f)))))"
proof -
  let ?fs = "deduplicated entries"
  let ?P = "\<lambda>f. \<exists>k\<in>set (depKeys f). symbol k \<notin> psym ` set ?fs"
  have P: "(\<lambda>f. missingDependencies f ?fs \<noteq> []) = ?P"
    by (auto simp: missingDependencies_filter filter_empty_conv)
  from assms(2) obtain f where f: "find ?P ?fs = Some f"
    by (cases "find ?P ?fs") (auto simp: find_None_iff)
  have "checkCircularDependencies ?fs = Inr ()"
    by (rule check_acyclic_ok [OF deduplicated_distinct assms(1)])
  with f have "ServiceModule_from entries =
      Inl (ServiceModuleInitError (missingMessage (name (provides f)) (missingDependencies f ?fs)))"
    by (simp add: from_deduplicated new_ServiceModule_def checkAllMissing_find P)
  with f show ?thesis
    by (simp add: missingMessage_def missingDependencies_filter)
qed

text \<open>
  The factory that provides Key1 and depends on the unregistered Key2: the arrow
  stands after two spaces.
\<close>

theorem missing_dependencies_reported_witness:
  "\<not> hasCycle (deduplicated [EFactory (plainFactory Key1 [Key2])]) \<and>
   ServiceModule_from [EFactory (plainFactory Key1 [Key2])] =
     Inl (ServiceModuleInitError ''Key1 will fail because it depends on:\<newline>  -> Key2'')"
proof -
  let ?f = "plainFactory Key1 [Key2]"
  have ded: "deduplicated [EFactory ?f] = [?f]"
    by (simp add: deduplicated_def from_defs)
  have "edgesOf (factoryMap [?f]) = {}"
    by (auto simp: edgesOf_def from_defs depKeys_def plainFactory_def Key1_def Key2_def
          split: if_splits)
  then have acyc: "\<not> hasCycle (deduplicated [EFactory ?f])"
    unfolding ded hasCycle_def by simp
  have miss: "\<exists>f\<in>set (deduplicated [EFactory ?f]). \<exists>k\<in>set (depKeys f).
             symbol k \<notin> psym ` set (deduplicated [EFactory ?f])"
    unfolding ded by (simp add: depKeys_def plainFactory_def Key1_def Key2_def)
  from missing_dependencies_reported [OF acyc miss] obtain f where
    f: "find (\<lambda>f. \<exists>k\<in>set (depKeys f). symbol k \<notin> psym ` set (deduplicated [EFactory ?f]))
          (deduplicated [EFactory ?f]) = Some f"
    and r: "ServiceModule_from [EFactory ?f] =
       Inl (ServiceModuleInitError
         (name (provides f) @ '' will fail because it depends on:\<newline> '' @
          join ''\<newline>''
            (map (\<lambda>k. '' -> '' @ name k)
               (filter (\<lambda>k. symbol k \<notin> psym ` set (deduplicated [EFactory ?f])) (depKeys f)))))"
    by blast
  from f have "f = ?f"
    unfolding ded by (simp split: if_splits)
  with r acyc show ?thesis
    unfolding ded by (simp add: depKeys_def plainFactory_def Key1_def Key2_def)
qed

text \<open>
  C3 as stated fails twice. The message of the scenario has two spaces before the
  arrow, so it does not contain the text of the claim, which has one. And a
  factory that depends on itself and on the unregistered Key2 fails with the cycle
  error, which names no missing key.
\<close>

theorem missing_dependencies_counterexample:
  "ServiceModule_from [EFactory (plainFactory Key1 [Key2])] =
     Inl (ServiceModuleInitError ''Key1 will fail because it depends on:\<newline>  -> Key2'') \<and>
   \<not> String_includes ''Key1 will fail because it depends on:\<newline>  -> Key2''
        ''Key1 will fail because it depends on:\<newline> -> Key2'' \<and>
   ServiceModule_from [EFactory (plainFactory Key1 [Key1, Key2])] =
     Inl (ServiceModuleInitError ''Circular dependency detected: Key1 -> Key1'')"
  by (simp add: from_defs walk.simps plainFactory_def Key1_def Key2_def)

section \<open>Dependencies are resolved and passed in order (C6)\<close>



section \<open>A rejected dependency skips initialize (C10)\<close>



section \<open>The last factory for a key wins (C4)\<close>



section \<open>The not-found error and getOrNull (C5)\<close>

text \<open>
  C5, as amended. In a module that \<open>from\<close> returned, and with more fuel than the
  module has factories: when no factory provides the key, \<open>get\<close> rejects with the
  factory-not-found error and changes nothing. \<open>getOrNull\<close> ends in the world in
  which \<open>get\<close> ends; it returns the value of \<open>get\<close>, \<open>null\<close> for every rejection of
  the not-found class, and the same error for every other rejection. And when no
  \<open>initialize\<close> of the module raises an error of the not-found class, \<open>get\<close>
  rejects with one exactly when no factory provides the key.
\<close>

theorem not_found_and_getOrNull:
  assumes "ServiceModule_from entries = Inr m" and "length (factories m) < n"
  shows
    "(find (isSuitable key) (factories m) = None \<longrightarrow>
        get n m key w =
          Some (Inl (ServiceFactoryNotFoundError
                  (''Could not find a suitable factory for '' @ name key)), w)) \<and>
     (\<exists>r w'. get n m key w = Some (r, w') \<and>
        getOrNull n m key w =
          Some (case r of
                  Inr v \<Rightarrow> Inr (Some v)
                | Inl (ServiceFactoryNotFoundError msg) \<Rightarrow> Inr None
                | Inl e \<Rightarrow> Inl e, w')) \<and>
     ((\<forall>g\<in>set (factories m). \<forall>ds u msg.
          fst (initialize g ds u) \<noteq> Inl (ServiceFactoryNotFoundError msg)) \<longrightarrow>
        ((\<exists>msg w'. get n m key w = Some (Inl (ServiceFactoryNotFoundError msg), w')) \<longleftrightarrow>
           find (isSuitable key) (factories m) = None))"
proof -
  from assms(1) have v: "validated (factories m)" by (rule from_validated)
  from assms(2) obtain n' where n': "n = Suc n'" by (cases n) auto
  have root: "find (isSuitable key) (factories m) = None \<longrightarrow>
        get n m key w =
          Some (Inl (ServiceFactoryNotFoundError
                  (''Could not find a suitable factory for '' @ name key)), w)"
    by (simp add: n')
  from get_total [OF v assms(2), of key w] obtain r w' where g: "get n m key w = Some (r, w')"
    by blast
  then have orNull: "getOrNull n m key w =
          Some (case r of
                  Inr v \<Rightarrow> Inr (Some v)
                | Inl (ServiceFactoryNotFoundError msg) \<Rightarrow> Inr None
                | Inl e \<Rightarrow> Inl e, w')"
    by (simp add: getOrNull_def split: sum.splits error.splits)
  have exact: "(\<forall>g\<in>set (factories m). \<forall>ds u msg.
          fst (initialize g ds u) \<noteq> Inl (ServiceFactoryNotFoundError msg)) \<longrightarrow>
        ((\<exists>msg w'. get n m key w = Some (Inl (ServiceFactoryNotFoundError msg), w')) \<longleftrightarrow>
           find (isSuitable key) (factories m) = None)"
    using not_found_only_at_root(1) [OF v] root by blast
  from root g orNull exact show ?thesis by blast
qed

text \<open>
  A module without a factory for Key0 and with a factory for Key1 whose
  \<open>initialize\<close> throws \<open>Init error\<close>: \<open>get\<close> for Key0 rejects with the
  not-found error, \<open>getOrNull\<close> for Key0 is \<open>null\<close>, and \<open>getOrNull\<close> for Key1
  rejects with \<open>Init error\<close>.
\<close>

theorem not_found_and_getOrNull_witness:
  "ServiceModule_from (map EFactory failingDependency) = Inr (ServiceModule failingDependency) \<and>
   get 3 (ServiceModule failingDependency) Key0 emptyWorld =
     Some (Inl (ServiceFactoryNotFoundError ''Could not find a suitable factory for Key0''),
           emptyWorld) \<and>
   getOrNull 3 (ServiceModule failingDependency) Key0 emptyWorld = Some (Inr None, emptyWorld) \<and>
   getOrNull 3 (ServiceModule failingDependency) Key1 emptyWorld =
     Some (Inl (Error ''Init error''), emptyWorld\<lparr>invoked := [1]\<rparr>)"
proof -
  let ?m = "ServiceModule failingDependency"
  have m: "ServiceModule_from (map EFactory failingDependency) = Inr ?m"
    by (simp add: failingDependency_def from_defs walk.simps transient_def Key1_def Key2_def)
  have n: "length (factories ?m) < 3" by (simp add: failingDependency_def)
  have nf: "find (isSuitable Key0) (factories ?m) = None"
    by (simp add: failingDependency_def isSuitable_def transient_def Key0_def Key1_def Key2_def)
  from not_found_and_getOrNull [OF m n, of Key0 emptyWorld] nf
  have g0: "get 3 ?m Key0 emptyWorld =
      Some (Inl (ServiceFactoryNotFoundError (''Could not find a suitable factory for '' @ name Key0)),
            emptyWorld)"
    and "\<exists>r w'. get 3 ?m Key0 emptyWorld = Some (r, w') \<and>
        getOrNull 3 ?m Key0 emptyWorld =
          Some (case r of
                  Inr v \<Rightarrow> Inr (Some v)
                | Inl (ServiceFactoryNotFoundError msg) \<Rightarrow> Inr None
                | Inl e \<Rightarrow> Inl e, w')"
    by blast+
  then have o0: "getOrNull 3 ?m Key0 emptyWorld = Some (Inr None, emptyWorld)"
    by auto
  have g1: "get 3 ?m Key1 emptyWorld = Some (Inl (Error ''Init error''), emptyWorld\<lparr>invoked := [1]\<rparr>)"
    by (simp add: failingDependency_def eval_nat_numeral isSuitable_def transient_def Key1_def
          Key2_def awaitAndInitialize_def throwing_def emptyWorld_def)
  from not_found_and_getOrNull [OF m n, of Key1 emptyWorld] g1
  have o1: "getOrNull 3 ?m Key1 emptyWorld =
      Some (Inl (Error ''Init error''), emptyWorld\<lparr>invoked := [1]\<rparr>)"
    by auto
  from m g0 o0 o1 show ?thesis by (simp add: Key0_def)
qed

text \<open>
  C5 as stated fails when an \<open>initialize\<close> raises an error of the not-found class
  (as a constructor does that looks a key up in another module). The module has a
  factory for Key1, and yet \<open>get\<close> for Key1 rejects with a not-found error; and
  \<open>getOrNull\<close>, which tests the class of the error only, turns this error raised
  inside \<open>initialize\<close> into \<open>null\<close>.
\<close>

theorem getOrNull_counterexample:
  "ServiceModule_from (map EFactory notFoundInside) = Inr (ServiceModule notFoundInside) \<and>
   find (isSuitable Key1) (factories (ServiceModule notFoundInside)) \<noteq> None \<and>
   get 2 (ServiceModule notFoundInside) Key1 emptyWorld =
     Some (Inl (ServiceFactoryNotFoundError ''raised by initialize''),
           emptyWorld\<lparr>invoked := [1]\<rparr>) \<and>
   getOrNull 2 (ServiceModule notFoundInside) Key1 emptyWorld =
     Some (Inr None, emptyWorld\<lparr>invoked := [1]\<rparr>)"
  by (simp add: notFoundInside_def from_defs walk.simps eval_nat_numeral isSuitable_def
        transient_def Key1_def awaitAndInitialize_def throwing_def emptyWorld_def getOrNull_def)

section \<open>Every call of get runs initialize (C7)\<close>




section \<open>A selector resolves nothing until asked (C8)\<close>


section \<open>Disposal (C9)\<close>




end
